theory Spec2Isabelle
  imports Main "HOL-Library.Multiset"
begin

section \<open>The crawler of \<^verbatim>\<open>src/crawler.js\<close>\<close>

text \<open>
  The file exports two functions: \<^verbatim>\<open>queueLinks\<close>, which turns one fetched page into the
  set of links found on it, and \<^verbatim>\<open>crawl\<close>, which follows links level by level. Both are
  embedded below, line by line. What the file imports is taken as a parameter:
  \<^item> \<^verbatim>\<open>isURL\<close> of the package validator is a predicate \<open>isURL\<close> on strings;
  \<^item> \<^verbatim>\<open>axios.get\<close> is a function \<open>get\<close> from an address to a page, \<open>None\<close> when the
    promise rejects; the same address gives the same answer during one crawl;
  \<^item> \<^verbatim>\<open>cheerio.load(data)('a')\<close> is already applied: a page carries, for each anchor
    element in document order, the value of its \<^verbatim>\<open>href\<close> attribute, \<open>None\<close> when the
    element has none (the other keys of the cheerio object give \<^verbatim>\<open>null\<close> at lines 26 to 29
    and go away at line 31, as \<open>None\<close> does);
  \<^item> the filter is a predicate on the link: of the three arguments that
    \<^verbatim>\<open>Array.prototype.filter\<close> passes it reads the first, and its result counts as a truth
    value.
  Fetching is the one effect that \<^verbatim>\<open>crawl\<close> has, so \<open>crawl\<close> returns, with its result, the
  log of the calls of \<^verbatim>\<open>axios.get\<close>.
\<close>

subsection \<open>Data\<close>

text \<open>
  A JavaScript \<^verbatim>\<open>Set\<close> iterates in insertion order and the crawler fetches in that order,
  so a set is a list without repetition: \<open>js_add\<close> is \<^verbatim>\<open>Set.prototype.add\<close> and \<open>js_Set\<close> is
  \<^verbatim>\<open>new Set(array)\<close>.
\<close>

definition js_add :: "'a list \<Rightarrow> 'a \<Rightarrow> 'a list" where
  "js_add s x = (if x \<in> set s then s else s @ [x])"

definition js_Set :: "'a list \<Rightarrow> 'a list" where
  "js_Set xs = foldl js_add [] xs"

text \<open>
  Modelled from the spec: \<^verbatim>\<open>Set.prototype.difference\<close> is called by \<^verbatim>\<open>crawl\<close> and is not
  defined in \<^verbatim>\<open>crawler.js\<close> (a built-in of recent engines, a polyfill elsewhere for older
  ones). The spec names it the set difference: a new set holding the members of the receiver
  that are not in the argument.
\<close>

definition difference :: "'a list \<Rightarrow> 'a list \<Rightarrow> 'a list" where
  "difference a b = filter (\<lambda>x. x \<notin> set b) a"

text \<open>The response of \<^verbatim>\<open>axios.get\<close>: \<^verbatim>\<open>status\<close>, and \<^verbatim>\<open>data\<close> seen through cheerio.\<close>

record page_result =
  status :: int
  hrefs :: "string option list"

text \<open>
  What \<^verbatim>\<open>crawl\<close> throws: the \<^verbatim>\<open>Error\<close> of line 53 with its message, or the rejection of a
  page fetch.
\<close>

datatype error = InvalidAddressError string | FetchError

text \<open>What \<^verbatim>\<open>queueLinks\<close> writes with \<^verbatim>\<open>console.log\<close>: the error object of line 35.\<close>

datatype diagnostic = WebsiteReturnedError int

subsection \<open>\<^verbatim>\<open>queueLinks\<close> (lines 21 to 37)\<close>

text \<open>Lines 25 to 31: the \<^verbatim>\<open>href\<close> values that are strings.\<close>

fun strings_only :: "string option list \<Rightarrow> string list" where
  "strings_only [] = []"
| "strings_only (None # hs) = strings_only hs"
| "strings_only (Some url # hs) = url # strings_only hs"

text \<open>Line 33: \<^verbatim>\<open>url.replace(/^https/, 'http')\<close>.\<close>

definition replace_https :: "string \<Rightarrow> string" where
  "replace_https url = (if take 5 url = ''https'' then ''http'' @ drop 5 url else url)"

text \<open>The result pairs what was written to the console with the returned set.\<close>

definition queueLinks ::
  "page_result \<Rightarrow> (string \<Rightarrow> bool) \<Rightarrow> diagnostic list \<times> string list" where
  "queueLinks pageContent filterFn =
     (if status pageContent = 200
      then ([], js_Set (map replace_https (filter filterFn (strings_only (hrefs pageContent)))))
      else ([WebsiteReturnedError (status pageContent)], js_Set []))"

subsection \<open>\<^verbatim>\<open>crawl\<close> (lines 49 to 92)\<close>

text \<open>
  An entry of the fetch log, one per fan-out: the addresses handed to \<^verbatim>\<open>axios.get\<close>, and
  the value of \<^verbatim>\<open>allLinks\<close> at that moment (empty at the fetch of the main page, where
  \<^verbatim>\<open>allLinks\<close> does not exist yet). Entry \<open>0\<close> is the fetch of line 62, entry \<open>k\<close> the
  \<^verbatim>\<open>Promise.all\<close> of the loop's \<open>k\<close>-th round.
\<close>

record level =
  visited :: "string list"
  targets :: "string list"

definition record_level :: "level \<Rightarrow> level list \<times> 'a \<Rightarrow> level list \<times> 'a" where
  "record_level lv out = (lv # fst out, snd out)"

text \<open>Lines 71 to 74: one task per address, and \<^verbatim>\<open>Promise.all\<close> over the tasks.\<close>

definition fetch_task ::
  "(string \<Rightarrow> page_result option) \<Rightarrow> (string \<Rightarrow> bool) \<Rightarrow> string \<Rightarrow> string list option" where
  "fetch_task get filterFn url =
     (case get url of
        None \<Rightarrow> None
      | Some newPage \<Rightarrow> Some (snd (queueLinks newPage filterFn)))"

fun promise_all :: "'a option list \<Rightarrow> 'a list option" where
  "promise_all [] = Some []"
| "promise_all (None # ps) = None"
| "promise_all (Some x # ps) = (case promise_all ps of None \<Rightarrow> None | Some xs \<Rightarrow> Some (x # xs))"

text \<open>
  Lines 76 to 85: the reducer adds every member of the accumulator to the current set and
  returns the current set; the accumulator starts as the empty set, so it is always a
  \<^verbatim>\<open>Set\<close>.
\<close>

definition reducer :: "'a list \<Rightarrow> 'a list \<Rightarrow> 'a list" where
  "reducer urlList urlSet = foldl js_add urlSet urlList"

definition merge_links :: "'a list list \<Rightarrow> 'a list" where
  "merge_links newLinks = foldl reducer (js_Set []) newLinks"

text \<open>The variables that the loop of lines 67 to 90 updates, beside the counter.\<close>

record loop_vars =
  allLinks :: "string list"
  links :: "string list"

function crawl_loop ::
  "(string \<Rightarrow> page_result option) \<Rightarrow> (string \<Rightarrow> bool) \<Rightarrow> int \<Rightarrow> int \<Rightarrow> loop_vars
     \<Rightarrow> level list \<times> (error + loop_vars)" where
  "crawl_loop get filterFn depth i v =
     (if i < depth then
        record_level \<lparr>visited = allLinks v, targets = links v\<rparr>
          (case promise_all (map (fetch_task get filterFn) (links v)) of
             None \<Rightarrow> ([], Inl FetchError)
           | Some newLinks \<Rightarrow>
               crawl_loop get filterFn depth ((if links v = [] then depth else i) + 1)
                 \<lparr>allLinks = foldl js_add (allLinks v) (merge_links newLinks),
                  links = difference (merge_links newLinks) (allLinks v)\<rparr>)
      else ([], Inr v))"
  by pat_completeness auto
termination
  by (relation "measure (\<lambda>(get, filterFn, depth, i, v). nat (depth - i))") auto

declare crawl_loop.simps [simp del]

text \<open>Lines 61 to 90: the fetch of the main page and the loop, up to the final variables.\<close>

definition crawl_levels ::
  "(string \<Rightarrow> page_result option) \<Rightarrow> int \<Rightarrow> (string \<Rightarrow> bool) \<Rightarrow> string
     \<Rightarrow> level list \<times> (error + loop_vars)" where
  "crawl_levels get depth filterFn url =
     record_level \<lparr>visited = [], targets = [url]\<rparr>
       (case get url of
          None \<Rightarrow> ([], Inl FetchError)
        | Some mainPage \<Rightarrow>
            crawl_loop get filterFn depth 1
              \<lparr>allLinks = snd (queueLinks mainPage filterFn),
               links = js_Set (snd (queueLinks mainPage filterFn))\<rparr>)"

text \<open>
  The whole function. The depth is given (an omitted argument means 5). The result pairs
  the fetch log with what the caller gets: the thrown error or the returned set.
\<close>

definition crawl ::
  "(string \<Rightarrow> bool) \<Rightarrow> (string \<Rightarrow> page_result option) \<Rightarrow> string \<Rightarrow> int \<Rightarrow> (string \<Rightarrow> bool)
     \<Rightarrow> level list \<times> (error + string list)" where
  "crawl isURL get domain depth filterFn =
     (if \<not> isURL (''http://'' @ domain)
      then ([], Inl (InvalidAddressError (''Invalid url: '' @ ''http://'' @ domain)))
      else if depth = 0 then ([], Inr (js_Set [''http://'' @ domain]))
      else apsnd (map_sum id allLinks) (crawl_levels get depth filterFn (''http://'' @ domain)))"

subsection \<open>Example inputs\<close>

text \<open>
  A filter that accepts every link, and two stand-ins for \<^verbatim>\<open>isURL\<close>: one that accepts every
  address, one that accepts the address of \<^verbatim>\<open>example.com\<close> alone.
\<close>

definition accept_all :: "string \<Rightarrow> bool" where
  "accept_all url = True"

definition any_address :: "string \<Rightarrow> bool" where
  "any_address url = True"

definition only_example_com :: "string \<Rightarrow> bool" where
  "only_example_com url = (url = ''http://example.com'')"

text \<open>
  The page that links back: the main page of \<^verbatim>\<open>example.com\<close> links to page \<^verbatim>\<open>b\<close> only, page
  \<^verbatim>\<open>b\<close> links to the main page only, every other fetch fails.
\<close>

definition back_link_web :: "string \<Rightarrow> page_result option" where
  "back_link_web url =
     (if url = ''http://example.com''
      then Some \<lparr>status = 200, hrefs = [Some ''http://example.com/b'']\<rparr>
      else if url = ''http://example.com/b''
      then Some \<lparr>status = 200, hrefs = [Some ''http://example.com'']\<rparr>
      else None)"

text \<open>A main page with one anchor, whose address starts with \<^verbatim>\<open>httpss\<close>.\<close>

definition double_s_web :: "string \<Rightarrow> page_result option" where
  "double_s_web url =
     (if url = ''http://example.com''
      then Some \<lparr>status = 200, hrefs = [Some ''httpss://example.com/x'']\<rparr>
      else None)"

text \<open>A main page that links to a page whose fetch fails.\<close>

definition broken_link_web :: "string \<Rightarrow> page_result option" where
  "broken_link_web url =
     (if url = ''http://example.com''
      then Some \<lparr>status = 200, hrefs = [Some ''http://example.com/gone'']\<rparr>
      else None)"

section \<open>Properties\<close>

subsection \<open>Sets as lists\<close>

lemma set_js_add: "set (js_add s x) = insert x (set s)"
  by (auto simp: js_add_def)

lemma distinct_js_add: "distinct s \<Longrightarrow> distinct (js_add s x)"
  by (simp add: js_add_def)

lemma set_foldl_js_add: "set (foldl js_add s xs) = set s \<union> set xs"
  by (induction xs arbitrary: s) (auto simp: set_js_add)

lemma distinct_foldl_js_add: "distinct s \<Longrightarrow> distinct (foldl js_add s xs)"
  by (induction xs arbitrary: s) (simp_all add: distinct_js_add)

lemma set_js_Set: "set (js_Set xs) = set xs"
  by (simp add: js_Set_def set_foldl_js_add)

lemma distinct_js_Set: "distinct (js_Set xs)"
  by (simp add: js_Set_def distinct_foldl_js_add)

lemma js_Set_Nil: "js_Set [] = []"
  by (simp add: js_Set_def)

lemma set_difference: "set (difference a b) = set a - set b"
  by (auto simp: difference_def)

lemma set_reducer: "set (reducer urlList urlSet) = set urlSet \<union> set urlList"
  by (simp add: reducer_def set_foldl_js_add)

lemma distinct_reducer: "distinct urlSet \<Longrightarrow> distinct (reducer urlList urlSet)"
  by (simp add: reducer_def distinct_foldl_js_add)

lemma set_foldl_reducer: "set (foldl reducer acc newLinks) = set acc \<union> \<Union> (set ` set newLinks)"
  by (induction newLinks arbitrary: acc) (auto simp: set_reducer)

lemma distinct_foldl_reducer:
  "distinct acc \<Longrightarrow> \<forall>s \<in> set newLinks. distinct s \<Longrightarrow> distinct (foldl reducer acc newLinks)"
  by (induction newLinks arbitrary: acc) (simp_all add: distinct_reducer)

lemma set_merge_links: "set (merge_links newLinks) = \<Union> (set ` set newLinks)"
  by (simp add: merge_links_def set_foldl_reducer js_Set_Nil)

subsection \<open>The fan-out\<close>

lemma promise_all_Some: "promise_all ps = Some xs \<Longrightarrow> ps = map Some xs"
  by (induction ps arbitrary: xs rule: promise_all.induct) (auto split: option.splits)

lemma promise_all_None: "promise_all ps = None \<longleftrightarrow> None \<in> set ps"
  by (induction ps rule: promise_all.induct) (auto split: option.splits)

lemma fetched_all:
  assumes "promise_all (map (fetch_task get filterFn) urls) = Some newLinks" and "u \<in> set urls"
  shows "get u \<noteq> None"
proof
  assume "get u = None"
  then have "fetch_task get filterFn u = None" by (simp add: fetch_task_def)
  with assms(2) have "None \<in> set (map (fetch_task get filterFn) urls)" by force
  then have "promise_all (map (fetch_task get filterFn) urls) = None"
    by (simp only: promise_all_None)
  with assms(1) show False by simp
qed

lemma extracted_from:
  assumes "promise_all (map (fetch_task get filterFn) urls) = Some newLinks" and "s \<in> set newLinks"
  shows "\<exists>u \<in> set urls. \<exists>page. get u = Some page \<and> s = snd (queueLinks page filterFn)"
proof -
  from assms(1) have "map (fetch_task get filterFn) urls = map Some newLinks"
    by (rule promise_all_Some)
  with assms(2) have "Some s \<in> set (map (fetch_task get filterFn) urls)" by simp
  then obtain u where "u \<in> set urls" and "fetch_task get filterFn u = Some s" by auto
  then show ?thesis by (auto simp: fetch_task_def split: option.splits)
qed

subsection \<open>The loop, one round at a time\<close>

lemma crawl_loop_done: "\<not> i < depth \<Longrightarrow> crawl_loop get filterFn depth i v = ([], Inr v)"
  by (simp add: crawl_loop.simps)

lemma crawl_loop_fail:
  "i < depth \<Longrightarrow> promise_all (map (fetch_task get filterFn) (links v)) = None \<Longrightarrow>
   crawl_loop get filterFn depth i v = ([\<lparr>visited = allLinks v, targets = links v\<rparr>], Inl FetchError)"
  by (simp add: crawl_loop.simps record_level_def)

lemma crawl_loop_step:
  "i < depth \<Longrightarrow> promise_all (map (fetch_task get filterFn) (links v)) = Some newLinks \<Longrightarrow>
   crawl_loop get filterFn depth i v =
     record_level \<lparr>visited = allLinks v, targets = links v\<rparr>
       (crawl_loop get filterFn depth ((if links v = [] then depth else i) + 1)
          \<lparr>allLinks = foldl js_add (allLinks v) (merge_links newLinks),
           links = difference (merge_links newLinks) (allLinks v)\<rparr>)"
  by (simp add: crawl_loop.simps)

lemma crawl_loop_empty:
  assumes "i < depth" and "links v = []"
  shows "crawl_loop get filterFn depth i v = ([\<lparr>visited = allLinks v, targets = []\<rparr>], Inr v)"
proof -
  have "promise_all (map (fetch_task get filterFn) (links v)) = Some []"
    using assms(2) by simp
  from crawl_loop_step [OF assms(1) this]
  have "crawl_loop get filterFn depth i v =
     record_level \<lparr>visited = allLinks v, targets = links v\<rparr>
       (crawl_loop get filterFn depth (depth + 1)
          \<lparr>allLinks = allLinks v, links = []\<rparr>)"
    using assms(2) by (simp add: merge_links_def js_Set_Nil difference_def)
  then show ?thesis
    using assms(2) by (simp add: crawl_loop_done record_level_def)
qed

text \<open>Every entry a loop writes was taken at or after its start.\<close>

lemma crawl_loop_entries:
  "crawl_loop get filterFn depth i v = (log, r) \<Longrightarrow> lv \<in> set log \<Longrightarrow>
   set (allLinks v) \<subseteq> set (visited lv) \<and> set (targets lv) \<inter> set (allLinks v) \<subseteq> set (links v)"
proof (induction get filterFn depth i v arbitrary: log r rule: crawl_loop.induct)
  case (1 get filterFn depth i v)
  show ?case
  proof (cases "i < depth")
    case False
    with "1.prems" show ?thesis by (simp add: crawl_loop_done)
  next
    case True
    show ?thesis
    proof (cases "promise_all (map (fetch_task get filterFn) (links v))")
      case None
      with True "1.prems" show ?thesis by (auto simp: crawl_loop_fail)
    next
      case (Some newLinks)
      let ?v' = "\<lparr>allLinks = foldl js_add (allLinks v) (merge_links newLinks),
                  links = difference (merge_links newLinks) (allLinks v)\<rparr>"
      let ?i' = "(if links v = [] then depth else i) + 1"
      obtain rest r' where rest: "crawl_loop get filterFn depth ?i' ?v' = (rest, r')"
        by (cases "crawl_loop get filterFn depth ?i' ?v'")
      with True Some "1.prems"(1) have log: "log = \<lparr>visited = allLinks v, targets = links v\<rparr> # rest"
        by (simp add: crawl_loop_step record_level_def)
      show ?thesis
      proof (cases "lv \<in> set rest")
        case False
        with log "1.prems"(2) show ?thesis by auto
      next
        case True
        from "1.IH" [OF \<open>i < depth\<close> Some rest True]
        show ?thesis by (auto simp: set_foldl_js_add set_difference)
      qed
    qed
  qed
qed

lemma crawl_loop_no_refetch:
  "crawl_loop get filterFn depth i v = (log, r) \<Longrightarrow>
   sorted_wrt (\<lambda>a b. set (visited a) \<inter> set (targets b) = {}) log"
proof (induction get filterFn depth i v arbitrary: log r rule: crawl_loop.induct)
  case (1 get filterFn depth i v)
  show ?case
  proof (cases "i < depth")
    case False
    with "1.prems" show ?thesis by (simp add: crawl_loop_done)
  next
    case True
    show ?thesis
    proof (cases "promise_all (map (fetch_task get filterFn) (links v))")
      case None
      with True "1.prems" show ?thesis by (auto simp: crawl_loop_fail)
    next
      case (Some newLinks)
      let ?v' = "\<lparr>allLinks = foldl js_add (allLinks v) (merge_links newLinks),
                  links = difference (merge_links newLinks) (allLinks v)\<rparr>"
      let ?i' = "(if links v = [] then depth else i) + 1"
      obtain rest r' where rest: "crawl_loop get filterFn depth ?i' ?v' = (rest, r')"
        by (cases "crawl_loop get filterFn depth ?i' ?v'")
      with True Some "1.prems"(1) have log: "log = \<lparr>visited = allLinks v, targets = links v\<rparr> # rest"
        by (simp add: crawl_loop_step record_level_def)
      have "set (allLinks v) \<inter> set (targets lv) = {}" if "lv \<in> set rest" for lv
        using crawl_loop_entries [OF rest that] by (auto simp: set_foldl_js_add set_difference)
      moreover have "sorted_wrt (\<lambda>a b. set (visited a) \<inter> set (targets b) = {}) rest"
        by (rule "1.IH" [OF \<open>i < depth\<close> Some rest])
      ultimately show ?thesis by (simp add: log)
    qed
  qed
qed

lemma crawl_loop_stops:
  "crawl_loop get filterFn depth i v = (log, r) \<Longrightarrow> n < length log \<Longrightarrow> targets (log ! n) = [] \<Longrightarrow>
   length log = Suc n \<and> r = Inr \<lparr>allLinks = visited (log ! n), links = []\<rparr>"
proof (induction get filterFn depth i v arbitrary: log r n rule: crawl_loop.induct)
  case (1 get filterFn depth i v)
  show ?case
  proof (cases "i < depth")
    case False
    with "1.prems" show ?thesis by (simp add: crawl_loop_done)
  next
    case True
    show ?thesis
    proof (cases "links v = []")
      case True
      with \<open>i < depth\<close> "1.prems" show ?thesis by (auto simp: crawl_loop_empty)
    next
      case False
      show ?thesis
      proof (cases "promise_all (map (fetch_task get filterFn) (links v))")
        case None
        with \<open>i < depth\<close> False "1.prems" show ?thesis by (auto simp: crawl_loop_fail)
      next
        case (Some newLinks)
        let ?v' = "\<lparr>allLinks = foldl js_add (allLinks v) (merge_links newLinks),
                    links = difference (merge_links newLinks) (allLinks v)\<rparr>"
        let ?i' = "(if links v = [] then depth else i) + 1"
        obtain rest r' where rest: "crawl_loop get filterFn depth ?i' ?v' = (rest, r')"
          by (cases "crawl_loop get filterFn depth ?i' ?v'")
        with \<open>i < depth\<close> Some "1.prems"(1)
        have log: "log = \<lparr>visited = allLinks v, targets = links v\<rparr> # rest" and r: "r = r'"
          by (simp_all add: crawl_loop_step record_level_def)
        from log False "1.prems"(3) obtain m where n: "n = Suc m"
          by (cases n) auto
        with log "1.prems"(2,3) have "m < length rest" and "targets (rest ! m) = []"
          by simp_all
        from "1.IH" [OF \<open>i < depth\<close> Some rest this]
        show ?thesis by (simp add: log r n)
      qed
    qed
  qed
qed

lemma crawl_loop_aborts:
  "crawl_loop get filterFn depth i v = (log, r) \<Longrightarrow> lv \<in> set log \<Longrightarrow> u \<in> set (targets lv) \<Longrightarrow>
   get u = None \<Longrightarrow> r = Inl FetchError"
proof (induction get filterFn depth i v arbitrary: log r rule: crawl_loop.induct)
  case (1 get filterFn depth i v)
  show ?case
  proof (cases "i < depth")
    case False
    with "1.prems" show ?thesis by (simp add: crawl_loop_done)
  next
    case True
    show ?thesis
    proof (cases "promise_all (map (fetch_task get filterFn) (links v))")
      case None
      with True "1.prems" show ?thesis by (simp add: crawl_loop_fail)
    next
      case (Some newLinks)
      let ?v' = "\<lparr>allLinks = foldl js_add (allLinks v) (merge_links newLinks),
                  links = difference (merge_links newLinks) (allLinks v)\<rparr>"
      let ?i' = "(if links v = [] then depth else i) + 1"
      obtain rest r' where rest: "crawl_loop get filterFn depth ?i' ?v' = (rest, r')"
        by (cases "crawl_loop get filterFn depth ?i' ?v'")
      with True Some "1.prems"(1)
      have log: "log = \<lparr>visited = allLinks v, targets = links v\<rparr> # rest" and r: "r = r'"
        by (simp_all add: crawl_loop_step record_level_def)
      have "lv \<in> set rest"
      proof (rule ccontr)
        assume "lv \<notin> set rest"
        with log "1.prems"(2,3) have "u \<in> set (links v)" by auto
        from fetched_all [OF Some this] "1.prems"(4) show False by simp
      qed
      from "1.IH" [OF True Some rest this "1.prems"(3,4)] r show ?thesis by simp
    qed
  qed
qed

lemma crawl_loop_origin:
  "crawl_loop get filterFn depth i v = (log, Inr v') \<Longrightarrow> x \<in> set (allLinks v') \<Longrightarrow>
   x \<in> set (allLinks v) \<or>
   (\<exists>lv \<in> set log. \<exists>u \<in> set (targets lv). \<exists>page.
      get u = Some page \<and> x \<in> set (snd (queueLinks page filterFn)))"
proof (induction get filterFn depth i v arbitrary: log rule: crawl_loop.induct)
  case (1 get filterFn depth i v)
  show ?case
  proof (cases "i < depth")
    case False
    with "1.prems" show ?thesis by (simp add: crawl_loop_done)
  next
    case True
    show ?thesis
    proof (cases "promise_all (map (fetch_task get filterFn) (links v))")
      case None
      with True "1.prems" show ?thesis by (simp add: crawl_loop_fail)
    next
      case (Some newLinks)
      let ?v' = "\<lparr>allLinks = foldl js_add (allLinks v) (merge_links newLinks),
                  links = difference (merge_links newLinks) (allLinks v)\<rparr>"
      let ?i' = "(if links v = [] then depth else i) + 1"
      obtain rest r' where rest: "crawl_loop get filterFn depth ?i' ?v' = (rest, r')"
        by (cases "crawl_loop get filterFn depth ?i' ?v'")
      with True Some "1.prems"(1)
      have log: "log = \<lparr>visited = allLinks v, targets = links v\<rparr> # rest" and r: "r' = Inr v'"
        by (simp_all add: crawl_loop_step record_level_def)
      from "1.IH" [OF True Some rest [unfolded r] "1.prems"(2)]
      consider "x \<in> set (allLinks v)" | "x \<in> set (merge_links newLinks)"
        | "\<exists>lv \<in> set rest. \<exists>u \<in> set (targets lv). \<exists>page.
             get u = Some page \<and> x \<in> set (snd (queueLinks page filterFn))"
        by (auto simp: set_foldl_js_add)
      then show ?thesis
      proof cases
        case 1
        then show ?thesis by simp
      next
        case 2
        then obtain s where "s \<in> set newLinks" and "x \<in> set s"
          by (auto simp: set_merge_links)
        with extracted_from [OF Some \<open>s \<in> set newLinks\<close>]
        have "\<exists>u \<in> set (links v). \<exists>page.
                get u = Some page \<and> x \<in> set (snd (queueLinks page filterFn))"
          by auto
        then show ?thesis by (simp add: log)
      next
        case 3
        then show ?thesis by (auto simp: log)
      qed
    qed
  qed
qed

subsection \<open>Where a link comes from\<close>

lemma in_queueLinks:
  "x \<in> set (snd (queueLinks page filterFn)) \<longleftrightarrow>
   status page = 200 \<and> (\<exists>href. Some href \<in> set (hrefs page) \<and> filterFn href \<and> x = replace_https href)"
proof -
  have "set (strings_only hs) = {href. Some href \<in> set hs}" for hs
    by (induction hs rule: strings_only.induct) auto
  then show ?thesis
    by (auto simp: queueLinks_def set_js_Set js_Set_Nil)
qed

text \<open>
  What line 33 leaves with a leading \<^verbatim>\<open>https\<close>: the strings that began with \<^verbatim>\<open>httpss\<close>.
\<close>

lemma replace_https_secure:
  "take 5 (replace_https url) = ''https'' \<longleftrightarrow> take 6 url = ''httpss''"
proof (cases "take 5 url = ''https''")
  case False
  have "take 6 url \<noteq> ''httpss''"
  proof
    assume six: "take 6 url = ''httpss''"
    have "take 5 (take 6 url) = take 5 ''httpss''"
      by (simp only: six)
    then have "take 5 url = ''https''"
      by simp
    with False show False ..
  qed
  with False show ?thesis by (simp add: replace_https_def)
next
  case True
  have "url = take 5 url @ drop 5 url"
    by simp
  with True have url: "url = ''https'' @ drop 5 url"
    by (simp only:)
  show ?thesis
    by (subst (1 2) url, cases "drop 5 url") (simp_all add: replace_https_def)
qed

subsection \<open>Runs of the scenarios\<close>

lemmas run_defs = crawl_def crawl_levels_def crawl_loop.simps queueLinks_def
  fetch_task_def record_level_def js_Set_def js_add_def replace_https_def merge_links_def
  reducer_def difference_def accept_all_def any_address_def


lemma back_link_run:
  "crawl any_address back_link_web ''example.com'' 5 accept_all =
     ([\<lparr>visited = [], targets = [''http://example.com'']\<rparr>,
       \<lparr>visited = [''http://example.com/b''], targets = [''http://example.com/b'']\<rparr>,
       \<lparr>visited = [''http://example.com/b'', ''http://example.com''],
        targets = [''http://example.com'']\<rparr>,
       \<lparr>visited = [''http://example.com/b'', ''http://example.com''], targets = []\<rparr>],
      Inr [''http://example.com/b'', ''http://example.com''])"
  by (simp add: run_defs back_link_web_def)

lemma broken_link_run:
  "crawl any_address broken_link_web ''example.com'' 4 accept_all =
     ([\<lparr>visited = [], targets = [''http://example.com'']\<rparr>,
       \<lparr>visited = [''http://example.com/gone''], targets = [''http://example.com/gone'']\<rparr>],
      Inl FetchError)"
  by (simp add: run_defs broken_link_web_def)

subsection \<open>From the loop to the whole crawl\<close>

lemma crawl_logged:
  assumes "crawl isURL get domain depth filterFn = (log, r)" and "log \<noteq> []"
  shows "depth \<noteq> 0 \<and> (\<exists>r'. crawl_levels get depth filterFn (''http://'' @ domain) = (log, r')
            \<and> r = map_sum id allLinks r')"
proof -
  define url where "url = ''http://'' @ domain"
  obtain log' r' where run: "crawl_levels get depth filterFn url = (log', r')"
    by (cases "crawl_levels get depth filterFn url")
  from assms have "depth \<noteq> 0 \<and> log = log' \<and> r = map_sum id allLinks r'"
    unfolding crawl_def url_def [symmetric] by (auto simp: run split: if_splits)
  with run show ?thesis by (simp add: url_def)
qed

lemma crawl_levels_cases:
  assumes "crawl_levels get depth filterFn url = (log, r)"
  shows "(get url = None \<and> log = [\<lparr>visited = [], targets = [url]\<rparr>] \<and> r = Inl FetchError) \<or>
         (\<exists>mainPage rest. get url = Some mainPage
            \<and> crawl_loop get filterFn depth 1
                 \<lparr>allLinks = snd (queueLinks mainPage filterFn),
                  links = js_Set (snd (queueLinks mainPage filterFn))\<rparr> = (rest, r)
            \<and> log = \<lparr>visited = [], targets = [url]\<rparr> # rest)"
proof (cases "get url")
  case None
  with assms show ?thesis by (auto simp: crawl_levels_def record_level_def)
next
  case (Some mainPage)
  let ?v = "\<lparr>allLinks = snd (queueLinks mainPage filterFn),
             links = js_Set (snd (queueLinks mainPage filterFn))\<rparr>"
  obtain rest r' where rest: "crawl_loop get filterFn depth 1 ?v = (rest, r')"
    by (cases "crawl_loop get filterFn depth 1 ?v")
  with assms Some show ?thesis by (auto simp: crawl_levels_def record_level_def)
qed

lemma crawl_returned:
  assumes "crawl isURL get domain depth filterFn = (log, Inr result)" and "depth \<noteq> 0"
  shows "\<exists>v. crawl_levels get depth filterFn (''http://'' @ domain) = (log, Inr v)
            \<and> result = allLinks v"
proof -
  define url where "url = ''http://'' @ domain"
  obtain log' r' where run: "crawl_levels get depth filterFn url = (log', r')"
    by (cases "crawl_levels get depth filterFn url")
  from assms have "log = log' \<and> Inr result = map_sum id allLinks r'"
    unfolding crawl_def url_def [symmetric] by (auto simp: run split: if_splits)
  with run show ?thesis unfolding url_def by (cases r') auto
qed

section \<open>The claims\<close>

subsection \<open>C1: the page that links back\<close>

text \<open>
  C1, as stated, fails. With depth 2, the main page linking to page \<^verbatim>\<open>b\<close> only and page
  \<^verbatim>\<open>b\<close> linking back, the round of level 1 leaves \<^verbatim>\<open>links\<close>, the frontier for level 2,
  equal to the set holding the main page's address: \<^verbatim>\<open>allLinks\<close> held page \<^verbatim>\<open>b\<close> alone
  when the difference was taken, since the main page's address is never put into it.
\<close>

theorem back_link_frontier_has_seed:
  "snd (crawl_levels back_link_web 2 accept_all ''http://example.com'') =
     Inr \<lparr>allLinks = [''http://example.com/b'', ''http://example.com''],
          links = [''http://example.com'']\<rparr>"
  by (simp add: run_defs back_link_web_def)

text \<open>
  C1, amended. Whenever the main page links to page B only and page B links back to the main
  page only (both links accepted by the filter, B another address than the main page), a
  crawl of depth 2 fetches the main page, then B, and ends with the main page's address in
  the frontier computed for level 2 and in the returned set; that address is not fetched a
  second time because the loop ends there. (\<open>back_link_run\<close> shows the second fetch at
  greater depth.)
\<close>

theorem back_link_frontier:
  assumes "get (''http://'' @ domain) = Some \<lparr>status = 200, hrefs = [Some pageB]\<rparr>"
    and "get (replace_https pageB) = Some \<lparr>status = 200, hrefs = [Some (''http://'' @ domain)]\<rparr>"
    and "filterFn pageB" and "filterFn (''http://'' @ domain)"
    and "replace_https pageB \<noteq> ''http://'' @ domain"
  shows "crawl_levels get 2 filterFn (''http://'' @ domain) =
     ([\<lparr>visited = [], targets = [''http://'' @ domain]\<rparr>,
       \<lparr>visited = [replace_https pageB], targets = [replace_https pageB]\<rparr>],
      Inr \<lparr>allLinks = [replace_https pageB, ''http://'' @ domain],
           links = [''http://'' @ domain]\<rparr>)"
proof -
  define url where "url = ''http://'' @ domain"
  have seed: "replace_https url = url"
    by (simp add: replace_https_def url_def)
  note hyps = assms [folded url_def]
  have main_page: "snd (queueLinks \<lparr>status = 200, hrefs = [Some pageB]\<rparr> filterFn) = [replace_https pageB]"
    using hyps(3) by (simp add: queueLinks_def js_Set_def js_add_def)
  have back_page: "snd (queueLinks \<lparr>status = 200, hrefs = [Some url]\<rparr> filterFn) = [url]"
    using hyps(4) by (simp add: queueLinks_def js_Set_def js_add_def seed)
  have fan: "promise_all (map (fetch_task get filterFn) [replace_https pageB]) = Some [[url]]"
    using hyps(2) back_page by (simp add: fetch_task_def)
  have merged: "merge_links [[url]] = [url]"
    by (simp add: merge_links_def reducer_def js_Set_def)
  have "crawl_loop get filterFn 2 1 \<lparr>allLinks = [replace_https pageB], links = [replace_https pageB]\<rparr>
     = ([\<lparr>visited = [replace_https pageB], targets = [replace_https pageB]\<rparr>],
        Inr \<lparr>allLinks = [replace_https pageB, url], links = [url]\<rparr>)"
    using hyps(5) fan
    by (subst crawl_loop.simps) (simp add: merged crawl_loop_done record_level_def difference_def js_add_def)
  then have "crawl_levels get 2 filterFn url =
     ([\<lparr>visited = [], targets = [url]\<rparr>,
       \<lparr>visited = [replace_https pageB], targets = [replace_https pageB]\<rparr>],
      Inr \<lparr>allLinks = [replace_https pageB, url], links = [url]\<rparr>)"
    using hyps(1) main_page by (simp add: crawl_levels_def record_level_def js_Set_def js_add_def)
  then show ?thesis by (simp only: url_def)
qed

theorem back_link_frontier_witness:
  "back_link_web (''http://'' @ ''example.com'') = Some \<lparr>status = 200, hrefs = [Some ''http://example.com/b'']\<rparr>
   \<and> back_link_web (replace_https ''http://example.com/b'') =
         Some \<lparr>status = 200, hrefs = [Some (''http://'' @ ''example.com'')]\<rparr>
   \<and> accept_all ''http://example.com/b'' \<and> accept_all (''http://'' @ ''example.com'')
   \<and> replace_https ''http://example.com/b'' \<noteq> ''http://'' @ ''example.com''
   \<and> crawl_levels back_link_web 2 accept_all (''http://'' @ ''example.com'') =
     ([\<lparr>visited = [], targets = [''http://example.com'']\<rparr>,
       \<lparr>visited = [''http://example.com/b''], targets = [''http://example.com/b'']\<rparr>],
      Inr \<lparr>allLinks = [''http://example.com/b'', ''http://example.com''],
           links = [''http://example.com'']\<rparr>)"
proof -
  have 1: "back_link_web (''http://'' @ ''example.com'') = Some \<lparr>status = 200, hrefs = [Some ''http://example.com/b'']\<rparr>"
    by (simp add: back_link_web_def)
  have 2: "back_link_web (replace_https ''http://example.com/b'') =
         Some \<lparr>status = 200, hrefs = [Some (''http://'' @ ''example.com'')]\<rparr>"
    by (simp add: back_link_web_def replace_https_def)
  have 3: "accept_all ''http://example.com/b''" and 4: "accept_all (''http://'' @ ''example.com'')"
    by (simp_all add: accept_all_def)
  have 5: "replace_https ''http://example.com/b'' \<noteq> ''http://'' @ ''example.com''"
    by (simp add: replace_https_def)
  from back_link_frontier [OF 1 2 3 4 5] 1 2 3 4 5 show ?thesis
    by (simp add: replace_https_def)
qed

subsection \<open>C2: nothing visited is fetched again\<close>

text \<open>
  C2. In every run of \<^verbatim>\<open>crawl\<close> and for every level \<open>a\<close>, no address that is in the Visited
  Set (\<^verbatim>\<open>allLinks\<close>) at the start of level \<open>a\<close> is handed to \<^verbatim>\<open>axios.get\<close> at a later level
  \<open>b\<close>: the frontier of the next level is the level's merged set minus \<^verbatim>\<open>allLinks\<close> as it
  stood at the start of the level, and \<^verbatim>\<open>allLinks\<close> only grows.
\<close>

theorem no_refetch:
  assumes "crawl isURL get domain depth filterFn = (log, r)"
    and "a < b" and "b < length log"
  shows "set (visited (log ! a)) \<inter> set (targets (log ! b)) = {}"
proof -
  let ?P = "\<lambda>x y. set (visited x) \<inter> set (targets y) = {}"
  from assms(3) have "log \<noteq> []" by auto
  from crawl_logged [OF assms(1) this] obtain r'
    where "crawl_levels get depth filterFn (''http://'' @ domain) = (log, r')" by blast
  from crawl_levels_cases [OF this] have "sorted_wrt ?P log"
    by (auto dest: crawl_loop_no_refetch)
  with assms(2,3) show ?thesis by (simp add: sorted_wrt_iff_nth_less)
qed

theorem no_refetch_witness:
  "crawl any_address back_link_web ''example.com'' 5 accept_all =
     ([\<lparr>visited = [], targets = [''http://example.com'']\<rparr>,
       \<lparr>visited = [''http://example.com/b''], targets = [''http://example.com/b'']\<rparr>,
       \<lparr>visited = [''http://example.com/b'', ''http://example.com''],
        targets = [''http://example.com'']\<rparr>,
       \<lparr>visited = [''http://example.com/b'', ''http://example.com''], targets = []\<rparr>],
      Inr [''http://example.com/b'', ''http://example.com''])
   \<and> (1::nat) < 2 \<and> (2::nat) < 4
   \<and> set [''http://example.com/b''] \<inter> set [''http://example.com''] = {}"
  using no_refetch [OF back_link_run, of 1 2] back_link_run by simp

subsection \<open>C3: an empty frontier ends the crawl\<close>

text \<open>
  C3. If the frontier left by level \<open>k\<close> is empty and the loop goes on to level \<open>k + 1\<close>
  (that is, \<open>k + 1 < depth\<close>), then the round of level \<open>k + 1\<close>, which has nothing to fetch,
  is the last one: every later level is skipped, no page is fetched after level \<open>k\<close>, and
  the crawl returns the Visited Set as it stood. The frontier left by level \<open>k\<close> is what
  level \<open>k + 1\<close> hands to \<^verbatim>\<open>Promise.all\<close>, the \<open>targets\<close> of entry \<open>k + 1\<close> of the log;
  \<open>crawl_loop_empty\<close> is the same fact for the loop alone.
\<close>

theorem early_termination:
  assumes "crawl isURL get domain depth filterFn = (log, r)"
    and "Suc k < length log" and "targets (log ! Suc k) = []"
  shows "length log = Suc (Suc k) \<and> r = Inr (visited (log ! Suc k))"
proof -
  from assms(2) have "log \<noteq> []" by auto
  from crawl_logged [OF assms(1) this] obtain r'
    where run: "crawl_levels get depth filterFn (''http://'' @ domain) = (log, r')"
      and r: "r = map_sum id allLinks r'" by blast
  from crawl_levels_cases [OF run] assms(2) obtain v rest
    where rest: "crawl_loop get filterFn depth 1 v = (rest, r')"
      and log: "log = \<lparr>visited = [], targets = [''http://'' @ domain]\<rparr> # rest"
    by auto
  from assms(2,3) have "k < length rest" and "targets (rest ! k) = []"
    by (simp_all add: log)
  from crawl_loop_stops [OF rest this] show ?thesis
    by (simp add: log r)
qed

theorem early_termination_witness:
  "crawl any_address back_link_web ''example.com'' 5 accept_all =
     ([\<lparr>visited = [], targets = [''http://example.com'']\<rparr>,
       \<lparr>visited = [''http://example.com/b''], targets = [''http://example.com/b'']\<rparr>,
       \<lparr>visited = [''http://example.com/b'', ''http://example.com''],
        targets = [''http://example.com'']\<rparr>,
       \<lparr>visited = [''http://example.com/b'', ''http://example.com''], targets = []\<rparr>],
      Inr [''http://example.com/b'', ''http://example.com''])
   \<and> Suc 2 < 4
   \<and> targets \<lparr>visited = [''http://example.com/b'', ''http://example.com''], targets = []\<rparr> = []
   \<and> (4::nat) = Suc (Suc 2)"
  using early_termination [OF back_link_run, of 2] back_link_run by simp

subsection \<open>C4: the scheme of the returned addresses\<close>

text \<open>
  C4 asks that no returned address has the secure scheme. Line 33 replaces a leading
  \<^verbatim>\<open>https\<close> by \<^verbatim>\<open>http\<close> once, whatever follows it: on a main page whose one anchor is
  \<^verbatim>\<open>httpss://example.com/x\<close>, a crawl of depth 1 that accepts every link returns the set
  holding \<^verbatim>\<open>https://example.com/x\<close>.
\<close>

theorem secure_scheme_returned:
  "snd (crawl any_address double_s_web ''example.com'' 1 accept_all) = Inr [''https://example.com/x'']"
  by (simp add: run_defs double_s_web_def)

subsection \<open>C5: depth 0\<close>

text \<open>
  C5. For every domain that gives a well-formed address and every filter, \<^verbatim>\<open>crawl\<close> with
  depth 0 returns exactly the set holding the domain prefixed with \<^verbatim>\<open>http://\<close>, and fetches
  no page: the log is empty.
\<close>

theorem depth_zero:
  assumes "isURL (''http://'' @ domain)"
  shows "crawl isURL get domain 0 filterFn = ([], Inr [''http://'' @ domain])"
  using assms by (simp add: crawl_def js_Set_def js_add_def)

theorem depth_zero_witness:
  "any_address (''http://'' @ ''example.com'')
   \<and> crawl any_address back_link_web ''example.com'' 0 accept_all = ([], Inr [''http://example.com''])"
proof -
  have valid: "any_address (''http://'' @ ''example.com'')"
    by (simp add: any_address_def)
  from depth_zero [where isURL = any_address and domain = "''example.com''"
      and get = back_link_web and filterFn = accept_all, OF valid] valid
  show ?thesis
    by simp
qed

subsection \<open>C6: a failed fetch aborts the crawl\<close>

text \<open>
  C6. If the fetch of any address handed to \<^verbatim>\<open>axios.get\<close> at any level fails, the whole call
  of \<^verbatim>\<open>crawl\<close> ends with the fetch error: the caller gets the error and no set.
\<close>

theorem fetch_failure_aborts:
  assumes "crawl isURL get domain depth filterFn = (log, r)"
    and "lv \<in> set log" and "u \<in> set (targets lv)" and "get u = None"
  shows "r = Inl FetchError"
proof -
  from assms(2) have "log \<noteq> []" by auto
  from crawl_logged [OF assms(1) this] obtain r'
    where run: "crawl_levels get depth filterFn (''http://'' @ domain) = (log, r')"
      and r: "r = map_sum id allLinks r'" by blast
  from crawl_levels_cases [OF run] have "r' = Inl FetchError"
  proof (elim disjE exE conjE)
    fix mainPage rest
    assume page: "get (''http://'' @ domain) = Some mainPage"
      and rest: "crawl_loop get filterFn depth 1
          \<lparr>allLinks = snd (queueLinks mainPage filterFn),
           links = js_Set (snd (queueLinks mainPage filterFn))\<rparr> = (rest, r')"
      and log: "log = \<lparr>visited = [], targets = [''http://'' @ domain]\<rparr> # rest"
    from log assms(2,3,4) page have "lv \<in> set rest" by auto
    from crawl_loop_aborts [OF rest this assms(3,4)] show ?thesis .
  qed
  with r show ?thesis by simp
qed

theorem fetch_failure_aborts_witness:
  "crawl any_address broken_link_web ''example.com'' 4 accept_all =
     ([\<lparr>visited = [], targets = [''http://example.com'']\<rparr>,
       \<lparr>visited = [''http://example.com/gone''], targets = [''http://example.com/gone'']\<rparr>],
      Inl FetchError)
   \<and> \<lparr>visited = [''http://example.com/gone''], targets = [''http://example.com/gone'']\<rparr>
       \<in> set [\<lparr>visited = [], targets = [''http://example.com'']\<rparr>,
         \<lparr>visited = [''http://example.com/gone''], targets = [''http://example.com/gone'']\<rparr>]
   \<and> ''http://example.com/gone''
       \<in> set (targets \<lparr>visited = [''http://example.com/gone''], targets = [''http://example.com/gone'']\<rparr>)
   \<and> broken_link_web ''http://example.com/gone'' = None"
  using fetch_failure_aborts [OF broken_link_run,
      of "\<lparr>visited = [''http://example.com/gone''], targets = [''http://example.com/gone'']\<rparr>"
         "''http://example.com/gone''"]
    broken_link_run
  by (simp add: broken_link_web_def)

subsection \<open>C7: a page whose status is not 200\<close>

text \<open>
  C7. For every page whose status is not 200 and every filter, \<^verbatim>\<open>queueLinks\<close> returns the
  empty set; it throws nothing, and writes the status to the console as its one diagnostic.
\<close>

theorem bad_status_no_links:
  assumes "status pageContent \<noteq> 200"
  shows "queueLinks pageContent filterFn = ([WebsiteReturnedError (status pageContent)], [])"
  using assms by (simp add: queueLinks_def js_Set_Nil)

theorem bad_status_no_links_witness:
  "status \<lparr>status = 500, hrefs = [Some ''http://example.com/a'']\<rparr> \<noteq> 200
   \<and> queueLinks \<lparr>status = 500, hrefs = [Some ''http://example.com/a'']\<rparr> accept_all =
         ([WebsiteReturnedError 500], [])"
  using bad_status_no_links [of "\<lparr>status = 500, hrefs = [Some ''http://example.com/a'']\<rparr>" accept_all]
  by simp

subsection \<open>C8: an address that is not well formed\<close>

text \<open>
  C8. For every domain such that \<^verbatim>\<open>http://\<close> followed by the domain is not a well-formed
  address, \<^verbatim>\<open>crawl\<close> throws the error of line 53 before any fetch, whatever the depth and
  the filter: the log is empty and no set is returned.
\<close>

theorem invalid_address:
  assumes "\<not> isURL (''http://'' @ domain)"
  shows "crawl isURL get domain depth filterFn =
           ([], Inl (InvalidAddressError (''Invalid url: '' @ ''http://'' @ domain)))"
  using assms by (simp add: crawl_def)

theorem invalid_address_witness:
  "\<not> only_example_com (''http://'' @ ''exa mple'')
   \<and> crawl only_example_com back_link_web ''exa mple'' 3 accept_all =
         ([], Inl (InvalidAddressError ''Invalid url: http://exa mple''))"
proof -
  have invalid: "\<not> only_example_com (''http://'' @ ''exa mple'')"
    by (simp add: only_example_com_def)
  from invalid_address [where isURL = only_example_com and domain = "''exa mple''"
      and get = back_link_web and depth = 3 and filterFn = accept_all, OF invalid] invalid
  show ?thesis
    by simp
qed

subsection \<open>C9: the merge step is a union\<close>

text \<open>
  C9. The set that the reduction of lines 76 to 85 builds from the sets extracted for the
  addresses of a level has exactly the members of their union, each once, and the same
  members whatever the order in which the per-address sets arrive.
\<close>

theorem merge_is_union:
  assumes "\<forall>s \<in> set newLinks. distinct s" and "mset newLinks' = mset newLinks"
  shows "set (merge_links newLinks) = \<Union> (set ` set newLinks)
         \<and> distinct (merge_links newLinks)
         \<and> set (merge_links newLinks') = set (merge_links newLinks)"
proof -
  have "distinct (merge_links newLinks)"
    using assms(1) by (simp add: merge_links_def distinct_foldl_reducer distinct_js_Set)
  moreover from assms(2) have "set newLinks' = set newLinks"
    by (rule mset_eq_setD)
  ultimately show ?thesis by (simp add: set_merge_links)
qed

theorem merge_is_union_witness:
  "distinct [''a'', ''b''] \<and> distinct [''b'', ''c'']
   \<and> mset [[''b'', ''c''], [''a'', ''b'']] = mset [[''a'', ''b''], [''b'', ''c'']]
   \<and> merge_links [[''a'', ''b''], [''b'', ''c'']] = [''b'', ''c'', ''a'']
   \<and> merge_links [[''b'', ''c''], [''a'', ''b'']] = [''a'', ''b'', ''c'']
   \<and> set (merge_links [[''a'', ''b''], [''b'', ''c'']]) = {''a'', ''b'', ''c''}
   \<and> distinct (merge_links [[''a'', ''b''], [''b'', ''c'']])
   \<and> set (merge_links [[''b'', ''c''], [''a'', ''b'']]) = set (merge_links [[''a'', ''b''], [''b'', ''c'']])"
proof -
  have sets: "\<forall>s \<in> set [[''a'', ''b''], [''b'', ''c'']]. distinct s"
    by simp
  have perm: "mset [[''b'', ''c''], [''a'', ''b'']] = mset [[''a'', ''b''], [''b'', ''c'']]"
    by (simp add: add.commute)
  have "merge_links [[''a'', ''b''], [''b'', ''c'']] = [''b'', ''c'', ''a'']"
    and "merge_links [[''b'', ''c''], [''a'', ''b'']] = [''a'', ''b'', ''c'']"
    by (simp_all add: merge_links_def reducer_def js_Set_def js_add_def)
  with merge_is_union [OF sets perm] sets perm show ?thesis
    by auto
qed

subsection \<open>C10: the main page's own address\<close>

text \<open>
  C10. For every depth other than 0 (so for every depth from 1 on), the address of the main
  page is in the returned set only if some page that was fetched with status 200 has an
  anchor, accepted by the filter, whose address is the main page's after the replacement of
  line 33: \<^verbatim>\<open>crawl\<close> never adds that address by itself.
\<close>

theorem seed_only_if_linked:
  assumes "crawl isURL get domain depth filterFn = (log, Inr result)"
    and "depth \<noteq> 0"
    and "''http://'' @ domain \<in> set result"
  shows "\<exists>lv \<in> set log. \<exists>u \<in> set (targets lv). \<exists>page.
           get u = Some page \<and> status page = 200 \<and>
           (\<exists>href. Some href \<in> set (hrefs page) \<and> filterFn href
              \<and> ''http://'' @ domain = replace_https href)"
proof -
  define url where "url = ''http://'' @ domain"
  from crawl_returned [OF assms(1,2)] obtain v
    where run: "crawl_levels get depth filterFn url = (log, Inr v)"
      and result: "result = allLinks v"
    unfolding url_def by blast
  from crawl_levels_cases [OF run] obtain mainPage rest
    where page: "get url = Some mainPage"
      and rest: "crawl_loop get filterFn depth 1
          \<lparr>allLinks = snd (queueLinks mainPage filterFn),
           links = js_Set (snd (queueLinks mainPage filterFn))\<rparr> = (rest, Inr v)"
      and log: "log = \<lparr>visited = [], targets = [url]\<rparr> # rest"
    by auto
  from assms(3) result have "url \<in> set (allLinks v)"
    by (simp add: url_def)
  from crawl_loop_origin [OF rest this]
  have "\<exists>lv \<in> set log. \<exists>u \<in> set (targets lv). \<exists>page.
          get u = Some page \<and> url \<in> set (snd (queueLinks page filterFn))"
  proof
    assume "url \<in> set (allLinks \<lparr>allLinks = snd (queueLinks mainPage filterFn),
           links = js_Set (snd (queueLinks mainPage filterFn))\<rparr>)"
    with page show ?thesis by (simp add: log)
  next
    assume "\<exists>lv \<in> set rest. \<exists>u \<in> set (targets lv). \<exists>page.
          get u = Some page \<and> url \<in> set (snd (queueLinks page filterFn))"
    then show ?thesis by (auto simp: log)
  qed
  then show ?thesis
    unfolding in_queueLinks url_def .
qed

theorem seed_only_if_linked_witness:
  "crawl any_address back_link_web ''example.com'' 5 accept_all =
     ([\<lparr>visited = [], targets = [''http://example.com'']\<rparr>,
       \<lparr>visited = [''http://example.com/b''], targets = [''http://example.com/b'']\<rparr>,
       \<lparr>visited = [''http://example.com/b'', ''http://example.com''],
        targets = [''http://example.com'']\<rparr>,
       \<lparr>visited = [''http://example.com/b'', ''http://example.com''], targets = []\<rparr>],
      Inr [''http://example.com/b'', ''http://example.com''])
   \<and> (5::int) \<noteq> 0
   \<and> ''http://'' @ ''example.com'' \<in> set [''http://example.com/b'', ''http://example.com'']
   \<and> back_link_web ''http://example.com/b'' =
         Some \<lparr>status = 200, hrefs = [Some ''http://example.com'']\<rparr>
   \<and> accept_all ''http://example.com''
   \<and> ''http://'' @ ''example.com'' = replace_https ''http://example.com''"
proof -
  have depth: "(5::int) \<noteq> 0"
    by simp
  have member: "''http://'' @ ''example.com'' \<in> set [''http://example.com/b'', ''http://example.com'']"
    by simp
  from seed_only_if_linked [OF back_link_run depth member] back_link_run show ?thesis
    by (simp add: back_link_web_def accept_all_def replace_https_def)
qed

end
